theory Spec2Isabelle
  imports Complex_Main
begin

section \<open>Factors, factor graphs and the slot table\<close>

text \<open>
  A key is a C++ \<^verbatim>\<open>int\<close>; a factor is iterated as the sequence of the keys it
  involves (\<^verbatim>\<open>factor.begin()\<close> .. \<^verbatim>\<open>factor.end()\<close>); a factor graph holds the
  sequence \<^verbatim>\<open>factors_\<close> (the field \<open>factors\<close> below).
\<close>

type_synonym Key = int

type_synonym Factor = "Key list"

record FactorGraph =
  factors :: "Factor list"

text \<open>
  Modelled from the spec: \<^verbatim>\<open>FactorGraph::size()\<close> is declared in
  \<^verbatim>\<open>inference/FactorGraph.h\<close>, which is not among the sources; the spec says a factor
  graph "exposes its element count", so \<^verbatim>\<open>size()\<close> is the number of factors.
\<close>

definition size_fg :: "FactorGraph \<Rightarrow> nat" where
  "size_fg g = length (factors g)"

text \<open>
  Modelled from the spec: \<^verbatim>\<open>VariableSlots.h\<close> only declares
  \<^verbatim>\<open>static const int Empty;\<close> the value is given elsewhere. The spec calls it "the
  maximum representable integer" and the constructor's comment "the max integer value";
  for the 32-bit \<^verbatim>\<open>int\<close> of the declaration that is \<open>2^31 - 1\<close>.
\<close>

definition Empty :: int where
  "Empty = 2147483647"

text \<open>
  \<^verbatim>\<open>class VariableSlots : public std::map<int, std::vector<int>>\<close>. A \<^verbatim>\<open>std::map\<close> is
  kept as an association list in the order in which the map is iterated; \<open>map_insert\<close>
  below is \<^verbatim>\<open>std::map::insert\<close>, which puts a new key at its place in the key order
  and leaves the map alone when the key is present.
\<close>

type_synonym SlotsMap = "(Key \<times> int list) list"

datatype error = OutOfRange | InvalidIterator

text \<open>
  \<^verbatim>\<open>this->insert(std::make_pair(k, v))\<close> returns the iterator to the element with key
  \<open>k\<close> and whether the pair was inserted. The iterator is represented by the key itself:
  the element it points to is the one \<open>map_of\<close> finds.
\<close>

fun map_insert :: "Key \<Rightarrow> int list \<Rightarrow> SlotsMap \<Rightarrow> SlotsMap \<times> bool" where
  "map_insert k v [] = ([(k, v)], True)"
| "map_insert k v ((k', v') # m) =
     (if k < k' then ((k, v) # (k', v') # m, True)
      else if k = k' then ((k', v') # m, False)
      else (let (m', inserted) = map_insert k v m in ((k', v') # m', inserted)))"

text \<open>Assignment through the iterator: \<^verbatim>\<open>it->second = f (it->second)\<close>.\<close>

fun modify_second :: "Key \<Rightarrow> (int list \<Rightarrow> int list) \<Rightarrow> SlotsMap \<Rightarrow> SlotsMap" where
  "modify_second k f [] = []"
| "modify_second k f ((k', v) # m) =
     (if k = k' then (k', f v) # m else (k', v) # modify_second k f m)"

text \<open>\<^verbatim>\<open>std::vector::resize(n, x)\<close>: cut to \<open>n\<close> elements, or fill up with \<open>x\<close>.\<close>

definition resize :: "int list \<Rightarrow> nat \<Rightarrow> int \<Rightarrow> int list" where
  "resize v n x = (if n \<le> length v then take n v else v @ replicate (n - length v) x)"

text \<open>
  \<^verbatim>\<open>v[i] = x\<close> on a \<^verbatim>\<open>std::vector\<close>. The index is an \<^verbatim>\<open>int\<close>; outside the vector the
  C++ is undefined, which the model reports as \<open>OutOfRange\<close>.
\<close>

definition vector_set :: "int list \<Rightarrow> int \<Rightarrow> int \<Rightarrow> error + int list" where
  "vector_set v i x =
     (if 0 \<le> i \<and> nat i < length v then Inr (v[nat i := x]) else Inl OutOfRange)"

text \<open>
  The body of the inner loop of the constructor (VariableSlots.h, lines 79 to 87) for the
  key \<open>k = *involvedVariable\<close>, with \<open>n = factorGraph.size()\<close>; \<open>debug\<close> is the constant
  \<open>false\<close>, so nothing is printed.
\<close>

definition record_slot ::
  "nat \<Rightarrow> int \<Rightarrow> int \<Rightarrow> Key \<Rightarrow> SlotsMap \<Rightarrow> error + SlotsMap" where
  "record_slot n jointFactorPos factorVarSlot k m =
     (let (m1, inserted) = map_insert k [] m;
          m2 = (if inserted then modify_second k (\<lambda>v. resize v n Empty) m1 else m1)
      in case map_of m2 k of
           None \<Rightarrow> Inl InvalidIterator
         | Some v \<Rightarrow>
             (case vector_set v jointFactorPos factorVarSlot of
                Inl e \<Rightarrow> Inl e
              | Inr v' \<Rightarrow> Inr (modify_second k (\<lambda>_. v') m2)))"

text \<open>
  The inner loop over the keys of one factor: \<open>factorVarSlot\<close> starts at 0 and is
  incremented after each key.

  Both counters of the constructor are C++ \<^verbatim>\<open>int\<close>s that count up from 0, one step per
  factor or per key. The model counts in the integers: it is the C++ for every graph
  with fewer than \<open>2^31\<close> factors whose factors have fewer than \<open>2^31\<close> keys each; on a
  larger input the C++ increment overflows, which the language leaves undefined.
\<close>

fun factor_loop ::
  "nat \<Rightarrow> int \<Rightarrow> int \<Rightarrow> Key list \<Rightarrow> SlotsMap \<Rightarrow> error + SlotsMap" where
  "factor_loop n jointFactorPos factorVarSlot [] m = Inr m"
| "factor_loop n jointFactorPos factorVarSlot (k # ks) m =
     (case record_slot n jointFactorPos factorVarSlot k m of
        Inl e \<Rightarrow> Inl e
      | Inr m' \<Rightarrow> factor_loop n jointFactorPos (factorVarSlot + 1) ks m')"

text \<open>
  The outer loop over \<^verbatim>\<open>factorGraph.factors_\<close>: \<open>jointFactorPos\<close> starts at 0 and is
  incremented after each factor.
\<close>

fun graph_loop ::
  "nat \<Rightarrow> int \<Rightarrow> Factor list \<Rightarrow> SlotsMap \<Rightarrow> error + SlotsMap" where
  "graph_loop n jointFactorPos [] m = Inr m"
| "graph_loop n jointFactorPos (f # fs) m =
     (case factor_loop n jointFactorPos 0 f m of
        Inl e \<Rightarrow> Inl e
      | Inr m' \<Rightarrow> graph_loop n (jointFactorPos + 1) fs m')"

text \<open>The constructor: the map starts empty.\<close>

definition VariableSlots :: "FactorGraph \<Rightarrow> error + SlotsMap" where
  "VariableSlots g = graph_loop (size_fg g) 0 (factors g) []"


subsection \<open>Notions used to state and prove the properties of the table\<close>

text \<open>
  The representation invariant of the map: keys strictly ascending (a \<^verbatim>\<open>std::map\<close> has
  each key once and is iterated in key order) and every vector of the same length \<open>n\<close>.
\<close>

definition slots_inv :: "nat \<Rightarrow> SlotsMap \<Rightarrow> bool" where
  "slots_inv n m \<longleftrightarrow> sorted_wrt (<) (map fst m) \<and> (\<forall>v \<in> snd ` set m. length v = n)"

text \<open>The row of key \<open>k\<close>, or the row a first insertion of \<open>k\<close> would create.\<close>

definition row_of :: "nat \<Rightarrow> SlotsMap \<Rightarrow> Key \<Rightarrow> int list" where
  "row_of n m k = (case map_of m k of None \<Rightarrow> replicate n Empty | Some v \<Rightarrow> v)"

text \<open>
  What the inner loop leaves at the current row-block position for key \<open>k\<close>, as a
  function of the keys of the factor: the slot counter at the last key equal to \<open>k\<close>,
  or the old entry when there is none.
\<close>

fun scan :: "Key \<Rightarrow> int \<Rightarrow> Key list \<Rightarrow> int \<Rightarrow> int" where
  "scan k s [] acc = acc"
| "scan k s (x # xs) acc = scan k (s + 1) xs (if x = k then s else acc)"

text \<open>The row of key \<open>k\<close> after the outer loop has gone through the factors \<open>fs\<close>.\<close>

fun rows :: "Key \<Rightarrow> nat \<Rightarrow> Factor list \<Rightarrow> int list \<Rightarrow> int list" where
  "rows k pos [] v = v"
| "rows k pos (f # fs) v = rows k (Suc pos) fs (v[pos := scan k 0 f (v ! pos)])"


section \<open>Slot entries and the scatter\<close>

text \<open>
  \<^verbatim>\<open>struct SlotEntry { int key; int dimension; ... }\<close> (Scatter.h, lines 33 to 47).
\<close>

record SlotEntry =
  key :: int
  dimension :: int

text \<open>\<^verbatim>\<open>operator<\<close> on slot entries (Scatter.h, lines 39 to 42) compares the keys only.\<close>

definition slot_less :: "SlotEntry \<Rightarrow> SlotEntry \<Rightarrow> bool" where
  "slot_less p q \<longleftrightarrow> key p < key q"

text \<open>\<^verbatim>\<open>SlotEntry::Zero\<close> (Scatter.h, lines 43 to 46): the entry is a placeholder.\<close>

definition Zero :: "SlotEntry \<Rightarrow> bool" where
  "Zero p \<longleftrightarrow> dimension p = 0"

text \<open>\<^verbatim>\<open>class Scatter : public std::vector<SlotEntry>\<close>.\<close>

type_synonym Scatter = "SlotEntry list"

text \<open>
  Modelled from the spec: \<^verbatim>\<open>GaussianFactorGraph\<close> and its factors are declared in
  \<^verbatim>\<open>linear/GaussianFactorGraph.h\<close>, which is not among the sources. A Gaussian factor is
  kept as the sequence of the keys it involves, each with the dimension of its block
  (the spec: a factor exposes "an ordered, forward-iterable sequence of the Keys it
  involves"; dimensions are "inferred from the factors that mention them").
\<close>

type_synonym GaussianFactor = "(Key \<times> int) list"

type_synonym GaussianFactorGraph = "GaussianFactor list"

text \<open>
  Modelled from the spec: \<^verbatim>\<open>Scatter::add\<close> is only declared in Scatter.h (line 67); the
  spec says "\<^verbatim>\<open>add(key, dim)\<close> appends one entry".
\<close>

definition add :: "int \<Rightarrow> int \<Rightarrow> Scatter \<Rightarrow> Scatter" where
  "add k d s = s @ [\<lparr>key = k, dimension = d\<rparr>]"

text \<open>
  Modelled from the spec: \<^verbatim>\<open>Scatter::find\<close> is only declared in Scatter.h (line 72); the
  spec says "\<^verbatim>\<open>find(key)\<close> performs a linear scan". The result is the position of the first
  entry with the key, \<open>None\<close> for \<^verbatim>\<open>end()\<close>.
\<close>

fun find_key :: "int \<Rightarrow> Scatter \<Rightarrow> nat option" where
  "find_key k [] = None"
| "find_key k (e # s) =
     (if key e = k then Some 0 else map_option Suc (find_key k s))"

text \<open>
  Modelled from the spec: the constructor \<^verbatim>\<open>Scatter(const GaussianFactorGraph& gfg)\<close> is
  only declared in Scatter.h (line 65). The spec says it is "built by scanning a factor
  graph and collecting the sorted union of all variable keys with their dimensions,
  inferred from the factors that mention them", and that a structure "built incrementally
  from an unsorted source" must be re-sorted: the factors are scanned in order, a key not
  found yet is added with the dimension the factor gives it, and the entries are then
  sorted with \<^verbatim>\<open>operator<\<close>. Entries of dimension 0 are kept: the spec has them
  "dropped before use as a real layout", which it does not make a step of this
  constructor.
\<close>

fun collect_factor :: "GaussianFactor \<Rightarrow> Scatter \<Rightarrow> Scatter" where
  "collect_factor [] s = s"
| "collect_factor ((k, d) # vs) s =
     collect_factor vs (case find_key k s of None \<Rightarrow> add k d s | Some _ \<Rightarrow> s)"

fun collect_graph :: "GaussianFactorGraph \<Rightarrow> Scatter \<Rightarrow> Scatter" where
  "collect_graph [] s = s"
| "collect_graph (f # fs) s = collect_graph fs (collect_factor f s)"

fun insert_entry :: "SlotEntry \<Rightarrow> Scatter \<Rightarrow> Scatter" where
  "insert_entry e [] = [e]"
| "insert_entry e (x # xs) = (if slot_less e x then e # x # xs else x # insert_entry e xs)"

fun sort_entries :: "Scatter \<Rightarrow> Scatter" where
  "sort_entries [] = []"
| "sort_entries (e # s) = insert_entry e (sort_entries s)"

definition Scatter :: "GaussianFactorGraph \<Rightarrow> Scatter" where
  "Scatter gfg = sort_entries (collect_graph gfg [])"

text \<open>
  A scatter under construction agrees with the dimensions \<open>dimOf\<close> of the variables: each
  key once, each entry with the dimension of its key.
\<close>

definition agrees :: "(Key \<Rightarrow> int) \<Rightarrow> Scatter \<Rightarrow> bool" where
  "agrees dimOf s \<longleftrightarrow>
     distinct (map key s) \<and> (\<forall>e \<in> set s. e = \<lparr>key = key e, dimension = dimOf (key e)\<rparr>)"


section \<open>The constrained noise model\<close>

text \<open>
  Modelled from the spec: NoiseModel.h declares the classes and their members
  (\<^verbatim>\<open>dim_\<close>, \<^verbatim>\<open>sigmas_\<close>, \<^verbatim>\<open>mu_\<close>, \<^verbatim>\<open>whiten\<close>) but holds no function body; the bodies
  are not among the sources. A constrained model is kept as its dimension, its sigmas and
  its penalty weights. Residuals are \<^verbatim>\<open>double\<close>s in the C++; the model takes real numbers
  and uses of them only the comparison with zero and one division.
\<close>

datatype shape_error = DimensionMismatch

record ConstrainedNoiseModel =
  dim :: nat
  sigmas :: "real list"
  mu :: "real list"

text \<open>
  Modelled from the spec: \<^verbatim>\<open>DiagonalNoiseModel::whiten\<close> (declared at NoiseModel.h, line
  282): "Diagonal: whiten(v)_i = v_i / sigma_i".
\<close>

definition Diagonal_whiten :: "real list \<Rightarrow> real list \<Rightarrow> real list" where
  "Diagonal_whiten ss v = map2 (\<lambda>s x. x / s) ss v"

text \<open>
  Modelled from the spec: \<^verbatim>\<open>ConstrainedNoiseModel::whiten\<close> (declared at NoiseModel.h,
  line 446): "if sigma_i == 0, output 0 when input v_i == 0, and output v_i unchanged
  otherwise. For sigma_i > 0, behaves exactly as Diagonal"; and "whitening a vector whose
  length does not equal the model's dim is rejected at the call site".
\<close>

definition whiten_component :: "real \<Rightarrow> real \<Rightarrow> real" where
  "whiten_component s x = (if s = 0 then (if x = 0 then 0 else x) else x / s)"

definition whiten :: "ConstrainedNoiseModel \<Rightarrow> real list \<Rightarrow> shape_error + real list" where
  "whiten m v =
     (if length v \<noteq> dim m then Inl DimensionMismatch
      else Inr (map2 whiten_component (sigmas m) v))"


section \<open>Properties of the slot table\<close>

subsection \<open>The map operations\<close>

lemma map_insert_fst_Cons:
  "fst (map_insert k v ((k', v') # m)) =
     (if k < k' then (k, v) # (k', v') # m
      else if k = k' then (k', v') # m
      else (k', v') # fst (map_insert k v m))"
  by (simp add: case_prod_beta)

lemma map_insert_snd_Cons:
  "snd (map_insert k v ((k', v') # m)) =
     (if k < k' then True else if k = k' then False else snd (map_insert k v m))"
  by (simp add: case_prod_beta)

lemma map_insert_keys: "fst ` set (fst (map_insert k v m)) = insert k (fst ` set m)"
proof (induction m)
  case Nil
  show ?case by simp
next
  case (Cons a m)
  obtain k' v' where a: "a = (k', v')" by (cases a)
  show ?case unfolding a map_insert_fst_Cons using Cons.IH by auto
qed

lemma map_insert_sorted:
  "sorted_wrt (<) (map fst m) \<Longrightarrow> sorted_wrt (<) (map fst (fst (map_insert k v m)))"
proof (induction m)
  case Nil
  then show ?case by simp
next
  case (Cons a m)
  obtain k' v' where a: "a = (k', v')" by (cases a)
  have "\<forall>x \<in> fst ` set (fst (map_insert k v m)). \<not> k < k' \<longrightarrow> k \<noteq> k' \<longrightarrow> k' < x"
    using Cons.prems a by (auto simp: map_insert_keys)
  then show ?case
    unfolding a map_insert_fst_Cons using Cons a by auto
qed

lemma map_insert_absent_snd: "k \<notin> fst ` set m \<Longrightarrow> snd (map_insert k v m)"
proof (induction m)
  case Nil
  show ?case by simp
next
  case (Cons a m)
  obtain k' v' where a: "a = (k', v')" by (cases a)
  show ?case unfolding a map_insert_snd_Cons using Cons a by auto
qed

lemma map_insert_absent_map:
  "k \<notin> fst ` set m \<Longrightarrow> map_of (fst (map_insert k v m)) = (map_of m)(k \<mapsto> v)"
proof (induction m)
  case Nil
  show ?case by simp
next
  case (Cons a m)
  obtain k' v' where a: "a = (k', v')" by (cases a)
  from Cons a have ne: "k \<noteq> k'" and IH: "map_of (fst (map_insert k v m)) = (map_of m)(k \<mapsto> v)"
    by auto
  show ?case unfolding a map_insert_fst_Cons using ne IH by (auto simp: fun_upd_twist)
qed

lemma map_insert_present:
  "sorted_wrt (<) (map fst m) \<Longrightarrow> k \<in> fst ` set m \<Longrightarrow> map_insert k v m = (m, False)"
proof (induction m)
  case Nil
  then show ?case by simp
next
  case (Cons a m)
  obtain k' v' where a: "a = (k', v')" by (cases a)
  show ?case
  proof (cases "k = k'")
    case True
    then show ?thesis by (simp add: a)
  next
    case False
    with Cons.prems a have in_m: "k \<in> fst ` set m" and gt: "k' < k" by auto
    with Cons a False show ?thesis by auto
  qed
qed

lemma modify_second_keys: "map fst (modify_second k f m) = map fst m"
  by (induction m) auto

lemma modify_second_vals:
  "(a, b) \<in> set (modify_second k f m) \<Longrightarrow> (a, b) \<in> set m \<or> (\<exists>v. (a, v) \<in> set m \<and> b = f v)"
proof (induction m)
  case Nil
  then show ?case by simp
next
  case (Cons x m)
  obtain k' v' where x: "x = (k', v')" by (cases x)
  show ?case
  proof (cases "k = k'")
    case True
    with Cons.prems x have "(a, b) = (k', f v') \<or> (a, b) \<in> set m" by simp
    then show ?thesis using x by auto
  next
    case False
    with Cons.prems x have "(a, b) = (k', v') \<or> (a, b) \<in> set (modify_second k f m)" by simp
    then show ?thesis using Cons.IH x by auto
  qed
qed

lemma modify_second_lengths:
  assumes "\<forall>v \<in> snd ` set m. length v = n" and "\<And>v. length v = n \<Longrightarrow> length (f v) = n"
  shows "\<forall>v \<in> snd ` set (modify_second k f m). length v = n"
proof
  fix b assume "b \<in> snd ` set (modify_second k f m)"
  then obtain a where "(a, b) \<in> set (modify_second k f m)" by auto
  from modify_second_vals[OF this] show "length b = n"
    using assms by force
qed

lemma map_of_modify_second:
  "map_of (modify_second k f m) =
     (case map_of m k of None \<Rightarrow> map_of m | Some v \<Rightarrow> (map_of m)(k \<mapsto> f v))"
  by (induction m) (auto split: option.splits)

lemma map_of_in_vals: "map_of m k = Some v \<Longrightarrow> v \<in> snd ` set m"
  by (metis map_of_SomeD snd_conv image_eqI)


lemma record_slot_effect:
  assumes inv: "slots_inv n m" and pos: "pos < n"
  shows "\<exists>m'. record_slot n (int pos) s k m = Inr m' \<and> slots_inv n m' \<and>
           fst ` set m' = insert k (fst ` set m) \<and>
           map_of m' = (map_of m)(k \<mapsto> (row_of n m k)[pos := s])"
proof (cases "k \<in> fst ` set m")
  case True
  then obtain v where v: "map_of m k = Some v"
    by (metis domD dom_map_of_conv_image_fst)
  have ins: "map_insert k [] m = (m, False)"
    using inv True by (simp add: slots_inv_def map_insert_present)
  have len: "length v = n"
    using inv map_of_in_vals[OF v] by (auto simp: slots_inv_def)
  let ?m' = "modify_second k (\<lambda>_. v[pos := s]) m"
  have r: "record_slot n (int pos) s k m = Inr ?m'"
    using pos by (simp add: record_slot_def ins v vector_set_def len)
  have "slots_inv n ?m'"
    using inv modify_second_lengths[of m n "\<lambda>_. v[pos := s]" k] len
    by (simp add: slots_inv_def modify_second_keys)
  moreover have "fst ` set ?m' = insert k (fst ` set m)"
    using True modify_second_keys[of k "\<lambda>_. v[pos := s]" m]
    by (metis insert_absorb list.set_map)
  moreover have "map_of ?m' = (map_of m)(k \<mapsto> (row_of n m k)[pos := s])"
    by (simp add: map_of_modify_second v row_of_def)
  ultimately show ?thesis using r by simp
next
  case False
  then have none: "map_of m k = None"
    by (simp add: map_of_eq_None_iff)
  obtain m1 b where ins: "map_insert k [] m = (m1, b)" by (cases "map_insert k [] m")
  from map_insert_absent_snd[OF False, of "[]"] map_insert_absent_map[OF False, of "[]"] ins
  have b: "b" and m1: "map_of m1 = (map_of m)(k \<mapsto> [])" by simp_all
  have k1: "fst ` set m1 = insert k (fst ` set m)"
    using map_insert_keys[of k "[]" m] ins by simp
  have s1: "sorted_wrt (<) (map fst m1)"
    using map_insert_sorted[of m k "[]"] inv ins by (simp add: slots_inv_def)
  let ?m2 = "modify_second k (\<lambda>v. resize v n Empty) m1"
  have m2: "map_of ?m2 = (map_of m)(k \<mapsto> replicate n Empty)"
    by (simp add: map_of_modify_second m1 resize_def)
  let ?m' = "modify_second k (\<lambda>_. (replicate n Empty)[pos := s]) ?m2"
  have r: "record_slot n (int pos) s k m = Inr ?m'"
    using pos by (simp add: record_slot_def ins b m2 vector_set_def)
  have keys: "map fst ?m' = map fst m1"
    by (simp add: modify_second_keys)
  have mo': "map_of ?m' = (map_of m)(k \<mapsto> (replicate n Empty)[pos := s])"
    unfolding map_of_modify_second[of k _ ?m2] by (simp add: m2)
  then have "map_of ?m' = (map_of m)(k \<mapsto> (row_of n m k)[pos := s])"
    by (simp add: row_of_def none)
  moreover have "fst ` set ?m' = insert k (fst ` set m)"
    using keys k1 by (metis list.set_map)
  moreover have "\<forall>v \<in> snd ` set ?m'. length v = n"
  proof
    fix v assume "v \<in> snd ` set ?m'"
    then obtain a where a: "(a, v) \<in> set ?m'" by auto
    have d: "distinct (map fst ?m')"
      using s1 keys by (simp add: strict_sorted_iff)
    then have mo: "map_of ?m' a = Some v" using a by simp
    show "length v = n"
    proof (cases "a = k")
      case True
      with mo have "v = (replicate n Empty)[pos := s]" by (simp add: mo')
      then show ?thesis by simp
    next
      case ne: False
      with mo have "map_of m a = Some v" by (simp add: mo')
      from map_of_in_vals[OF this] show ?thesis using inv by (auto simp: slots_inv_def)
    qed
  qed
  ultimately show ?thesis using r s1 keys by (simp add: slots_inv_def)
qed


lemma row_of_upd:
  "map_of m' = (map_of m)(k \<mapsto> v) \<Longrightarrow> row_of n m' k' = (if k' = k then v else row_of n m k')"
  by (simp add: row_of_def)

lemma factor_loop_effect:
  assumes "slots_inv n m" and "pos < n"
  shows "\<exists>m'. factor_loop n (int pos) s ks m = Inr m' \<and> slots_inv n m' \<and>
           fst ` set m' = set ks \<union> fst ` set m \<and>
           (\<forall>k. row_of n m' k = (row_of n m k)[pos := scan k s ks (row_of n m k ! pos)])"
  using assms
proof (induction ks arbitrary: s m)
  case Nil
  then show ?case by simp
next
  case (Cons x ks)
  from record_slot_effect[OF Cons.prems, of s x]
  obtain m1 where r: "record_slot n (int pos) s x m = Inr m1" and i1: "slots_inv n m1"
    and k1: "fst ` set m1 = insert x (fst ` set m)"
    and mo1: "map_of m1 = (map_of m)(x \<mapsto> (row_of n m x)[pos := s])" by blast
  from Cons.IH[OF i1 Cons.prems(2), of "s + 1"]
  obtain m' where f: "factor_loop n (int pos) (s + 1) ks m1 = Inr m'" and i': "slots_inv n m'"
    and k': "fst ` set m' = set ks \<union> fst ` set m1"
    and row': "\<forall>k. row_of n m' k = (row_of n m1 k)[pos := scan k (s + 1) ks (row_of n m1 k ! pos)]"
    by blast
  have len: "\<And>k. length (row_of n m k) = n"
    using Cons.prems(1) map_of_in_vals by (fastforce simp: row_of_def slots_inv_def split: option.splits)
  have "\<forall>k. row_of n m' k = (row_of n m k)[pos := scan k s (x # ks) (row_of n m k ! pos)]"
  proof
    fix k
    show "row_of n m' k = (row_of n m k)[pos := scan k s (x # ks) (row_of n m k ! pos)]"
      using row' row_of_upd[OF mo1, of n k] len[of k] Cons.prems(2) by auto
  qed
  then show ?case using r f i' k' k1 by auto
qed

lemma graph_loop_effect:
  assumes "slots_inv n m" and "pos + length fs \<le> n"
  shows "\<exists>m'. graph_loop n (int pos) fs m = Inr m' \<and> slots_inv n m' \<and>
           fst ` set m' = \<Union> (set ` set fs) \<union> fst ` set m \<and>
           (\<forall>k. row_of n m' k = rows k pos fs (row_of n m k))"
  using assms
proof (induction fs arbitrary: pos m)
  case Nil
  then show ?case by simp
next
  case (Cons f fs)
  from Cons.prems have p: "pos < n" and p': "Suc pos + length fs \<le> n" by simp_all
  from factor_loop_effect[OF Cons.prems(1) p, of 0 f]
  obtain m1 where r: "factor_loop n (int pos) 0 f m = Inr m1" and i1: "slots_inv n m1"
    and k1: "fst ` set m1 = set f \<union> fst ` set m"
    and row1: "\<forall>k. row_of n m1 k = (row_of n m k)[pos := scan k 0 f (row_of n m k ! pos)]"
    by blast
  from Cons.IH[OF i1 p']
  obtain m' where g: "graph_loop n (int (Suc pos)) fs m1 = Inr m'" and i': "slots_inv n m'"
    and k': "fst ` set m' = \<Union> (set ` set fs) \<union> fst ` set m1"
    and row': "\<forall>k. row_of n m' k = rows k (Suc pos) fs (row_of n m1 k)" by blast
  have "int pos + 1 = int (Suc pos)" by simp
  with g have "graph_loop n (int pos + 1) fs m1 = Inr m'" by (simp only:)
  with r have "graph_loop n (int pos) (f # fs) m = Inr m'"
    by (simp del: of_nat_Suc)
  moreover have "\<forall>k. row_of n m' k = rows k pos (f # fs) (row_of n m k)"
    using row' row1 by simp
  ultimately show ?case using i' k' k1 by auto
qed

lemma rows_nth:
  "pos + length fs \<le> length v \<Longrightarrow> length (rows k pos fs v) = length v \<and>
     (\<forall>j < length v. rows k pos fs v ! j =
        (if pos \<le> j \<and> j < pos + length fs then scan k 0 (fs ! (j - pos)) (v ! j) else v ! j))"
proof (induction fs arbitrary: pos v)
  case Nil
  then show ?case by simp
next
  case (Cons f fs)
  let ?v = "v[pos := scan k 0 f (v ! pos)]"
  from Cons.prems have "Suc pos + length fs \<le> length ?v" by simp
  from Cons.IH[OF this]
  have len: "length (rows k (Suc pos) fs ?v) = length v"
    and nth: "\<And>j. j < length v \<Longrightarrow> rows k (Suc pos) fs ?v ! j =
        (if Suc pos \<le> j \<and> j < Suc pos + length fs then scan k 0 (fs ! (j - Suc pos)) (?v ! j)
         else ?v ! j)" by simp_all
  have "\<forall>j < length v. rows k pos (f # fs) v ! j =
        (if pos \<le> j \<and> j < pos + length (f # fs) then scan k 0 ((f # fs) ! (j - pos)) (v ! j)
         else v ! j)"
  proof (intro allI impI)
    fix j assume j: "j < length v"
    consider "j < pos" | "j = pos" | "pos < j" by linarith
    then show "rows k pos (f # fs) v ! j =
        (if pos \<le> j \<and> j < pos + length (f # fs) then scan k 0 ((f # fs) ! (j - pos)) (v ! j)
         else v ! j)"
    proof cases
      case 1
      then show ?thesis using nth[OF j] by simp
    next
      case 2
      then show ?thesis using nth[OF j] j by simp
    next
      case 3
      then obtain d where d: "j - pos = Suc d" "j - Suc pos = d"
        by (metis Suc_diff_Suc)
      with 3 show ?thesis using nth[OF j] by auto
    qed
  qed
  with len show ?case by simp
qed

lemma scan_absent: "k \<notin> set ks \<Longrightarrow> scan k s ks acc = acc"
  by (induction ks arbitrary: s acc) auto

lemma scan_present:
  "k \<in> set ks \<Longrightarrow> \<exists>p < length ks. ks ! p = k \<and> scan k s ks acc = s + int p \<and>
      (\<forall>q < length ks. ks ! q = k \<longrightarrow> q \<le> p)"
proof (induction ks arbitrary: s acc)
  case Nil
  then show ?case by simp
next
  case (Cons x ks)
  show ?case
  proof (cases "k \<in> set ks")
    case True
    from Cons.IH[OF True, of "s + 1" "if x = k then s else acc"]
    obtain p where p: "p < length ks" "ks ! p = k"
      "scan k (s + 1) ks (if x = k then s else acc) = s + 1 + int p"
      "\<forall>q < length ks. ks ! q = k \<longrightarrow> q \<le> p" by blast
    have "\<forall>q < length (x # ks). (x # ks) ! q = k \<longrightarrow> q \<le> Suc p"
      using p(4) by (auto simp: nth_Cons split: nat.splits)
    then show ?thesis using p by (intro exI[of _ "Suc p"]) simp
  next
    case False
    with Cons.prems have xk: "x = k" by simp
    have "\<forall>q < length (x # ks). (x # ks) ! q = k \<longrightarrow> q \<le> 0"
      using False by (auto simp: nth_Cons split: nat.splits)
    then show ?thesis using xk False by (intro exI[of _ 0]) (simp add: scan_absent)
  qed
qed


lemma VariableSlots_rows:
  "\<exists>m. VariableSlots g = Inr m \<and> slots_inv (size_fg g) m \<and>
        fst ` set m = \<Union> (set ` set (factors g)) \<and>
        (\<forall>k. row_of (size_fg g) m k = rows k 0 (factors g) (replicate (size_fg g) Empty))"
proof -
  have "slots_inv (size_fg g) []" by (simp add: slots_inv_def)
  moreover have "0 + length (factors g) \<le> size_fg g" by (simp add: size_fg_def)
  ultimately show ?thesis
    using graph_loop_effect[of "size_fg g" "[]" 0 "factors g"]
    by (simp add: VariableSlots_def row_of_def)
qed

lemma slots_inv_map_of:
  "slots_inv n m \<Longrightarrow> (k, v) \<in> set m \<Longrightarrow> map_of m k = Some v"
  by (simp add: slots_inv_def strict_sorted_iff)

lemma VariableSlots_entry:
  assumes "VariableSlots g = Inr m" and "(k, v) \<in> set m" and "i < length (factors g)"
  shows "length v = length (factors g) \<and> v ! i = scan k 0 (factors g ! i) Empty"
proof -
  let ?n = "length (factors g)"
  from VariableSlots_rows[of g] assms(1)
  have inv: "slots_inv ?n m"
    and row: "row_of ?n m k = rows k 0 (factors g) (replicate ?n Empty)"
    by (simp_all add: size_fg_def)
  from slots_inv_map_of[OF inv assms(2)] have v: "row_of ?n m k = v"
    by (simp add: row_of_def)
  have "0 + length (factors g) \<le> length (replicate ?n Empty)" by simp
  from rows_nth[OF this, of k] assms(3) v row show ?thesis by simp
qed

lemma VariableSlots_length:
  assumes "VariableSlots g = Inr m" and "(k, v) \<in> set m"
  shows "length v = size_fg g"
proof -
  from VariableSlots_rows[of g] assms(1) have "slots_inv (size_fg g) m" by simp
  with assms(2) show ?thesis by (auto simp: slots_inv_def)
qed

subsection \<open>The table the constructor builds\<close>

text \<open>
  Claim C4. For every ordered collection of factors the constructor returns a map (no
  error) that holds each key once; its keys are the keys the factors involve; the entry
  of key \<open>k\<close> has one
  position per factor, and at position \<open>i\<close> it holds a local position of \<open>k\<close> inside
  factor \<open>i\<close> when factor \<open>i\<close> involves \<open>k\<close>, and \<open>Empty\<close> otherwise. Second conjunct:
  the loop body, at a key the map does not hold yet, creates the entry as \<open>n\<close> copies of
  \<open>Empty\<close> and records the current slot in it.
\<close>

theorem VariableSlots_records_local_slots:
  "(\<exists>m. VariableSlots g = Inr m \<and> distinct (map fst m) \<and>
        fst ` set m = \<Union> (set ` set (factors g)) \<and>
        (\<forall>(k, v) \<in> set m. length v = size_fg g \<and>
           (\<forall>i < size_fg g.
              (k \<in> set (factors g ! i) \<longrightarrow>
                 (\<exists>p < length (factors g ! i). factors g ! i ! p = k \<and> v ! i = int p)) \<and>
              (k \<notin> set (factors g ! i) \<longrightarrow> v ! i = Empty)))) \<and>
   (k0 \<notin> fst ` set m0 \<and> pos < n \<longrightarrow>
      (\<exists>m'. record_slot n (int pos) s k0 m0 = Inr m' \<and>
            map_of m' k0 = Some ((replicate n Empty)[pos := s])))"
proof (intro conjI impI)
  obtain m where m: "VariableSlots g = Inr m" and inv: "slots_inv (size_fg g) m"
    and keys: "fst ` set m = \<Union> (set ` set (factors g))"
    using VariableSlots_rows[of g] by blast
  from inv have dist: "distinct (map fst m)"
    by (simp add: slots_inv_def strict_sorted_iff)
  have "\<forall>(k, v) \<in> set m. length v = size_fg g \<and>
           (\<forall>i < size_fg g.
              (k \<in> set (factors g ! i) \<longrightarrow>
                 (\<exists>p < length (factors g ! i). factors g ! i ! p = k \<and> v ! i = int p)) \<and>
              (k \<notin> set (factors g ! i) \<longrightarrow> v ! i = Empty))"
  proof (clarify, intro conjI allI impI)
    fix k v assume kv: "(k, v) \<in> set m"
    show "length v = size_fg g"
      by (rule VariableSlots_length[OF m kv])
  next
    fix k v i assume kv: "(k, v) \<in> set m" and i: "i < size_fg g"
      and k: "k \<in> set (factors g ! i)"
    from i VariableSlots_entry[OF m kv, of i]
    have "v ! i = scan k 0 (factors g ! i) Empty" by (simp add: size_fg_def)
    with scan_present[OF k, of 0 Empty]
    show "\<exists>p < length (factors g ! i). factors g ! i ! p = k \<and> v ! i = int p" by auto
  next
    fix k v i assume kv: "(k, v) \<in> set m" and i: "i < size_fg g"
      and k: "k \<notin> set (factors g ! i)"
    from i VariableSlots_entry[OF m kv, of i]
    show "v ! i = Empty" by (simp add: size_fg_def scan_absent[OF k])
  qed
  with m dist keys show "\<exists>m. VariableSlots g = Inr m \<and> distinct (map fst m) \<and>
        fst ` set m = \<Union> (set ` set (factors g)) \<and>
        (\<forall>(k, v) \<in> set m. length v = size_fg g \<and>
           (\<forall>i < size_fg g.
              (k \<in> set (factors g ! i) \<longrightarrow>
                 (\<exists>p < length (factors g ! i). factors g ! i ! p = k \<and> v ! i = int p)) \<and>
              (k \<notin> set (factors g ! i) \<longrightarrow> v ! i = Empty)))" by blast
next
  assume a: "k0 \<notin> fst ` set m0 \<and> pos < n"
  then have absent: "k0 \<notin> fst ` set m0" and pos: "pos < n" by simp_all
  obtain m1 b where ins: "map_insert k0 [] m0 = (m1, b)" by (cases "map_insert k0 [] m0")
  from map_insert_absent_snd[OF absent, of "[]"] map_insert_absent_map[OF absent, of "[]"] ins
  have b: "b" and m1: "map_of m1 = (map_of m0)(k0 \<mapsto> [])" by simp_all
  let ?m2 = "modify_second k0 (\<lambda>v. resize v n Empty) m1"
  have m2: "map_of ?m2 = (map_of m0)(k0 \<mapsto> replicate n Empty)"
    by (simp add: map_of_modify_second m1 resize_def)
  let ?m' = "modify_second k0 (\<lambda>_. (replicate n Empty)[pos := s]) ?m2"
  have "record_slot n (int pos) s k0 m0 = Inr ?m'"
    using pos by (simp add: record_slot_def ins b m2 vector_set_def)
  moreover have "map_of ?m' k0 = Some ((replicate n Empty)[pos := s])"
    unfolding map_of_modify_second[of k0 _ ?m2] by (simp add: m2)
  ultimately show "\<exists>m'. record_slot n (int pos) s k0 m0 = Inr m' \<and>
            map_of m' k0 = Some ((replicate n Empty)[pos := s])" by blast
qed


text \<open>
  Witness of C4 on the example of the spec: factors with the keys \<open>[1, 3]\<close>, \<open>[1, 5]\<close>
  and \<open>[3, 5]\<close> give the keys 1, 3 and 5, and key 3 has the row \<open>[1, Empty, 0]\<close>.
\<close>

theorem VariableSlots_records_local_slots_witness:
  "VariableSlots \<lparr>factors = [[1, 3], [1, 5], [3, 5]]\<rparr> =
     Inr [(1, [0, 0, Empty]), (3, [1, Empty, 0]), (5, [Empty, 1, 1])] \<and>
   (3::int) \<notin> fst ` set ([] :: SlotsMap) \<and> (0::nat) < 3 \<and>
   (\<exists>m'. record_slot 3 (int 0) 1 3 [] = Inr m' \<and>
         map_of m' 3 = Some ((replicate 3 Empty)[0 := 1])) \<and>
   (\<exists>m. VariableSlots \<lparr>factors = [[1, 3], [1, 5], [3, 5]]\<rparr> = Inr m \<and>
        fst ` set m = {1, 3, 5} \<and> map_of m 3 = Some [1, Empty, 0])"
proof -
  let ?g = "\<lparr>factors = [[1, 3], [1, 5], [3, 5]]\<rparr>"
  have ev: "VariableSlots ?g = Inr [(1, [0, 0, Empty]), (3, [1, Empty, 0]), (5, [Empty, 1, 1])]"
    by (simp add: VariableSlots_def size_fg_def record_slot_def vector_set_def resize_def)
  have h: "(3::int) \<notin> fst ` set ([] :: SlotsMap) \<and> (0::nat) < 3" by simp
  note t = VariableSlots_records_local_slots [of ?g 3 "[]" 0 3 1]
  from t h have step: "\<exists>m'. record_slot 3 (int 0) 1 3 [] = Inr m' \<and>
         map_of m' 3 = Some ((replicate 3 Empty)[0 := 1])" by blast
  from t obtain m where m: "VariableSlots ?g = Inr m"
    and keys: "fst ` set m = \<Union> (set ` set (factors ?g))" by blast
  from m ev have "m = [(1, [0, 0, Empty]), (3, [1, Empty, 0]), (5, [Empty, 1, 1])]" by simp
  with keys have "fst ` set m = {1, 3, 5} \<and> map_of m 3 = Some [1, Empty, 0]" by auto
  with m have "\<exists>m. VariableSlots ?g = Inr m \<and>
        fst ` set m = {1, 3, 5} \<and> map_of m 3 = Some [1, Empty, 0]" by blast
  with ev h step show ?thesis by blast
qed

text \<open>
  Claim C9, amended to the constructor's result. The table the constructor returns has
  its keys in strictly ascending order, every row has exactly as many entries as the
  graph has factors, and every entry is non-negative and is \<open>Empty\<close> or smaller than the
  number of keys of its factor. The claim's last part, that the structure is never
  changed after construction, is not a property of the class: see the counterexample
  below.
\<close>

theorem VariableSlots_invariant:
  "\<exists>m. VariableSlots g = Inr m \<and> sorted_wrt (<) (map fst m) \<and>
        (\<forall>(k, v) \<in> set m. length v = size_fg g \<and>
           (\<forall>i < size_fg g. 0 \<le> v ! i \<and>
              (v ! i = Empty \<or> v ! i < int (length (factors g ! i)))))"
proof -
  obtain m where m: "VariableSlots g = Inr m" and inv: "slots_inv (size_fg g) m"
    using VariableSlots_rows[of g] by blast
  have "\<forall>(k, v) \<in> set m. length v = size_fg g \<and>
           (\<forall>i < size_fg g. 0 \<le> v ! i \<and>
              (v ! i = Empty \<or> v ! i < int (length (factors g ! i))))"
  proof (clarify, intro conjI allI impI)
    fix k v assume kv: "(k, v) \<in> set m"
    show "length v = size_fg g" by (rule VariableSlots_length[OF m kv])
  next
    fix k v i assume kv: "(k, v) \<in> set m" and i: "i < size_fg g"
    from i VariableSlots_entry[OF m kv, of i]
    have e: "v ! i = scan k 0 (factors g ! i) Empty" by (simp add: size_fg_def)
    show "0 \<le> v ! i"
    proof (cases "k \<in> set (factors g ! i)")
      case True
      from scan_present[OF True, of 0 Empty] e show ?thesis by auto
    next
      case False
      with e show ?thesis by (simp add: scan_absent Empty_def)
    qed
  next
    fix k v i assume kv: "(k, v) \<in> set m" and i: "i < size_fg g"
    from i VariableSlots_entry[OF m kv, of i]
    have e: "v ! i = scan k 0 (factors g ! i) Empty" by (simp add: size_fg_def)
    show "v ! i = Empty \<or> v ! i < int (length (factors g ! i))"
    proof (cases "k \<in> set (factors g ! i)")
      case True
      from scan_present[OF True, of 0 Empty] e show ?thesis by auto
    next
      case False
      with e show ?thesis by (simp add: scan_absent)
    qed
  qed
  with m inv show ?thesis by (auto simp: slots_inv_def)
qed

theorem VariableSlots_invariant_witness:
  "VariableSlots \<lparr>factors = [[2, 9], [], [9, 4, 2]]\<rparr> =
     Inr [(2, [0, Empty, 2]), (4, [Empty, Empty, 1]), (9, [1, Empty, 0])] \<and>
   sorted_wrt (<) (map fst [(2 :: int, [0, Empty, 2]), (4, [Empty, Empty, 1]), (9, [1, Empty, 0])]) \<and>
   size_fg \<lparr>factors = [[2, 9], [], [9, 4, 2]]\<rparr> = 3 \<and>
   (\<exists>m. VariableSlots \<lparr>factors = [[2, 9], [], [9, 4, 2]]\<rparr> = Inr m \<and>
        sorted_wrt (<) (map fst m) \<and> length (snd (m ! 2)) = 3 \<and> 0 \<le> snd (m ! 2) ! 1)"
proof -
  let ?g = "\<lparr>factors = [[2, 9], [], [9, 4, 2]]\<rparr>"
  let ?r = "[(2 :: int, [0, Empty, 2]), (4, [Empty, Empty, 1]), (9, [1, Empty, 0])]"
  have ev: "VariableSlots ?g = Inr ?r"
    by (simp add: VariableSlots_def size_fg_def record_slot_def vector_set_def resize_def)
  have sz: "size_fg ?g = 3" by (simp add: size_fg_def)
  have so: "sorted_wrt (<) (map fst ?r)" by simp
  from VariableSlots_invariant [of ?g] obtain m where m: "VariableSlots ?g = Inr m"
    and s: "sorted_wrt (<) (map fst m)"
    and e: "\<forall>(k, v) \<in> set m. length v = size_fg ?g \<and>
           (\<forall>i < size_fg ?g. 0 \<le> v ! i \<and>
              (v ! i = Empty \<or> v ! i < int (length (factors ?g ! i))))" by blast
  from m ev have mr: "m = ?r" by simp
  then have "m ! 2 \<in> set m" by simp
  with e sz have "length (snd (m ! 2)) = 3 \<and> 0 \<le> snd (m ! 2) ! 1"
    by (auto simp: case_prod_beta)
  with m s have "\<exists>m. VariableSlots ?g = Inr m \<and>
        sorted_wrt (<) (map fst m) \<and> length (snd (m ! 2)) = 3 \<and> 0 \<le> snd (m ! 2) ! 1" by blast
  with ev so sz show ?thesis by blast
qed

text \<open>
  Counterexample to C9 as stated ("the structure is never mutated after construction").
  \<^verbatim>\<open>class VariableSlots : public std::map<int, std::vector<int>>\<close> (VariableSlots.h,
  line 36) inherits the map publicly, so every member of the map is a member of the
  table, among them the \<^verbatim>\<open>insert\<close> that the constructor itself calls through
  \<^verbatim>\<open>this->insert\<close> (line 81). On the table built from the factors \<open>[2, 9]\<close>, \<open>[]\<close> and
  \<open>[9, 4, 2]\<close>, \<^verbatim>\<open>insert(std::make_pair(5, std::vector<int>()))\<close> reports an insertion
  and leaves a different table, whose row for key 5 has no entry although the graph has
  three factors: the table has changed after construction, and the invariant of the
  constructor's result no longer holds of it.
\<close>

theorem VariableSlots_mutable_counterexample:
  "VariableSlots \<lparr>factors = [[2, 9], [], [9, 4, 2]]\<rparr> =
     Inr [(2, [0, Empty, 2]), (4, [Empty, Empty, 1]), (9, [1, Empty, 0])] \<and>
   map_insert 5 [] [(2, [0, Empty, 2]), (4, [Empty, Empty, 1]), (9, [1, Empty, 0])] =
     ([(2, [0, Empty, 2]), (4, [Empty, Empty, 1]), (5, []), (9, [1, Empty, 0])], True) \<and>
   fst (map_insert 5 [] [(2, [0, Empty, 2]), (4, [Empty, Empty, 1]), (9, [1, Empty, 0])]) \<noteq>
     [(2, [0, Empty, 2]), (4, [Empty, Empty, 1]), (9, [1, Empty, 0])] \<and>
   map_of (fst (map_insert 5 [] [(2, [0, Empty, 2]), (4, [Empty, Empty, 1]), (9, [1, Empty, 0])])) 5 =
     Some [] \<and>
   length ([] :: int list) \<noteq> size_fg \<lparr>factors = [[2, 9], [], [9, 4, 2]]\<rparr>"
proof -
  let ?g = "\<lparr>factors = [[2, 9], [], [9, 4, 2]]\<rparr>"
  let ?t = "[(2 :: int, [0, Empty, 2]), (4, [Empty, Empty, 1]), (9, [1, Empty, 0])]"
  have ev: "VariableSlots ?g = Inr ?t"
    by (simp add: VariableSlots_def size_fg_def record_slot_def vector_set_def resize_def)
  have ins: "map_insert 5 [] ?t =
     ([(2, [0, Empty, 2]), (4, [Empty, Empty, 1]), (5, []), (9, [1, Empty, 0])], True)"
    by simp
  have ne: "fst (map_insert 5 [] ?t) \<noteq> ?t"
    unfolding ins by simp
  have row: "map_of (fst (map_insert 5 [] ?t)) 5 = Some []"
    unfolding ins by simp
  have len: "length ([] :: int list) \<noteq> size_fg ?g"
    by (simp add: size_fg_def)
  from ev ins ne row len show ?thesis by blast
qed

text \<open>
  Claim C10. When factor \<open>i\<close> lists key \<open>k\<close> (at position \<open>p\<close>, and possibly at others),
  the constructor returns a map (no error) whose entry for \<open>k\<close> holds at \<open>i\<close> the largest
  position of \<open>k\<close> in that factor. Second conjunct: at a key the map already holds, the
  loop body overwrites the entry's position \<open>pos\<close> with the current slot.
\<close>

theorem VariableSlots_repeated_key_last_slot:
  "(i < size_fg g \<and> p < length (factors g ! i) \<and> factors g ! i ! p = k \<longrightarrow>
      (\<exists>m v r. VariableSlots g = Inr m \<and> map_of m k = Some v \<and> v ! i = int r \<and>
         r < length (factors g ! i) \<and> factors g ! i ! r = k \<and> p \<le> r \<and>
         (\<forall>q < length (factors g ! i). factors g ! i ! q = k \<longrightarrow> q \<le> r))) \<and>
   (sorted_wrt (<) (map fst m0) \<and> (\<forall>w \<in> snd ` set m0. length w = n) \<and>
    map_of m0 k0 = Some v0 \<and> pos < n \<longrightarrow>
      (\<exists>m'. record_slot n (int pos) s k0 m0 = Inr m' \<and> map_of m' k0 = Some (v0[pos := s])))"
proof (intro conjI impI)
  assume a: "i < size_fg g \<and> p < length (factors g ! i) \<and> factors g ! i ! p = k"
  let ?f = "factors g ! i"
  from a have i: "i < length (factors g)" and p: "p < length ?f" and pk: "?f ! p = k"
    by (simp_all add: size_fg_def)
  from p pk have kin: "k \<in> set ?f" by auto
  obtain m where m: "VariableSlots g = Inr m" and inv: "slots_inv (size_fg g) m"
    and keys: "fst ` set m = \<Union> (set ` set (factors g))"
    using VariableSlots_rows[of g] by blast
  from i have "factors g ! i \<in> set (factors g)" by simp
  with kin have "k \<in> \<Union> (set ` set (factors g))" by blast
  with keys have "k \<in> fst ` set m" by simp
  then obtain v where kv: "(k, v) \<in> set m" by auto
  from slots_inv_map_of[OF inv kv] have mo: "map_of m k = Some v" .
  from VariableSlots_entry[OF m kv i] have e: "v ! i = scan k 0 ?f Empty" by simp
  from scan_present[OF kin, of 0 Empty] obtain r where r: "r < length ?f" "?f ! r = k"
    "scan k 0 ?f Empty = int r" "\<forall>q < length ?f. ?f ! q = k \<longrightarrow> q \<le> r" by auto
  from r(4) p pk have "p \<le> r" by blast
  with m mo e r show "\<exists>m v r. VariableSlots g = Inr m \<and> map_of m k = Some v \<and> v ! i = int r \<and>
         r < length ?f \<and> ?f ! r = k \<and> p \<le> r \<and> (\<forall>q < length ?f. ?f ! q = k \<longrightarrow> q \<le> r)"
    by auto
next
  assume a: "sorted_wrt (<) (map fst m0) \<and> (\<forall>w \<in> snd ` set m0. length w = n) \<and>
    map_of m0 k0 = Some v0 \<and> pos < n"
  then have inv: "slots_inv n m0" and mo: "map_of m0 k0 = Some v0" and pos: "pos < n"
    by (simp_all add: slots_inv_def)
  from record_slot_effect[OF inv pos, of s k0] mo
  show "\<exists>m'. record_slot n (int pos) s k0 m0 = Inr m' \<and> map_of m' k0 = Some (v0[pos := s])"
    by (auto simp: row_of_def)
qed

theorem VariableSlots_repeated_key_last_slot_witness:
  "(0::nat) < size_fg \<lparr>factors = [[7, 2, 7], [2]]\<rparr> \<and>
   (0::nat) < length (factors \<lparr>factors = [[7, 2, 7], [2]]\<rparr> ! 0) \<and>
   factors \<lparr>factors = [[7, 2, 7], [2]]\<rparr> ! 0 ! 0 = 7 \<and>
   VariableSlots \<lparr>factors = [[7, 2, 7], [2]]\<rparr> = Inr [(2, [1, 0]), (7, [2, Empty])] \<and>
   (\<exists>m v. VariableSlots \<lparr>factors = [[7, 2, 7], [2]]\<rparr> = Inr m \<and> map_of m 7 = Some v \<and>
          v ! 0 = 2) \<and>
   sorted_wrt (<) (map fst [(7 :: int, [0 :: int, Empty])]) \<and>
   map_of [(7 :: int, [0, Empty])] 7 = Some [0, Empty] \<and> (0::nat) < 2 \<and>
   (\<exists>m'. record_slot 2 (int 0) 2 7 [(7, [0, Empty])] = Inr m' \<and>
         map_of m' 7 = Some ([0, Empty][0 := 2]))"
proof -
  let ?g = "\<lparr>factors = [[7, 2, 7], [2]]\<rparr>"
  let ?m0 = "[(7 :: int, [0 :: int, Empty])]"
  have ev: "VariableSlots ?g = Inr [(2, [1, 0]), (7, [2, Empty])]"
    by (simp add: VariableSlots_def size_fg_def record_slot_def vector_set_def resize_def)
  have h1: "(0::nat) < size_fg ?g \<and> (0::nat) < length (factors ?g ! 0) \<and> factors ?g ! 0 ! 0 = 7"
    by (simp add: size_fg_def)
  have h2: "sorted_wrt (<) (map fst ?m0) \<and> (\<forall>w \<in> snd ` set ?m0. length w = 2) \<and>
            map_of ?m0 7 = Some [0, Empty] \<and> (0::nat) < 2" by simp
  note t = VariableSlots_repeated_key_last_slot [of 0 ?g 0 7 ?m0 2 7 "[0, Empty]" 0 2]
  from t h1 obtain m v r where m: "VariableSlots ?g = Inr m" "map_of m 7 = Some v"
    "v ! 0 = int r" by blast
  from m ev have "v = [2, Empty]" by auto
  with m have c1: "\<exists>m v. VariableSlots ?g = Inr m \<and> map_of m 7 = Some v \<and> v ! 0 = 2" by auto
  from t h2 have c2: "\<exists>m'. record_slot 2 (int 0) 2 7 ?m0 = Inr m' \<and>
         map_of m' 7 = Some ([0, Empty][0 := 2])" by blast
  from ev h1 h2 c1 c2 show ?thesis by blast
qed

section \<open>Properties of the scatter\<close>

lemma find_key_None: "find_key k s = None \<longleftrightarrow> k \<notin> key ` set s"
  by (induction s) auto

lemma collect_factor_agrees:
  "agrees dimOf s \<Longrightarrow> \<forall>(k, d) \<in> set f. d = dimOf k \<Longrightarrow>
     agrees dimOf (collect_factor f s) \<and> key ` set (collect_factor f s) = key ` set s \<union> fst ` set f"
proof (induction f arbitrary: s)
  case Nil
  then show ?case by simp
next
  case (Cons a f)
  obtain k d where a: "a = (k, d)" by (cases a)
  let ?s = "case find_key k s of None \<Rightarrow> add k d s | Some _ \<Rightarrow> s"
  from Cons.prems a have d: "d = dimOf k" by simp
  have ag: "agrees dimOf ?s"
    using Cons.prems(1) d
    by (auto simp: agrees_def add_def find_key_None split: option.splits)
  have ks: "key ` set ?s = insert k (key ` set s)"
    by (cases "find_key k s") (use find_key_None[of k s] in \<open>auto simp: add_def\<close>)
  from Cons.prems(2) have "\<forall>(k, d) \<in> set f. d = dimOf k" by simp
  from Cons.IH[OF ag this] ks a show ?case by auto
qed

lemma collect_graph_agrees:
  "agrees dimOf s \<Longrightarrow> \<forall>f \<in> set g. \<forall>(k, d) \<in> set f. d = dimOf k \<Longrightarrow>
     agrees dimOf (collect_graph g s) \<and>
     key ` set (collect_graph g s) = key ` set s \<union> (\<Union>f \<in> set g. fst ` set f)"
proof (induction g arbitrary: s)
  case Nil
  then show ?case by simp
next
  case (Cons f g)
  from Cons.prems(2) have f: "\<forall>(k, d) \<in> set f. d = dimOf k"
    and g: "\<forall>f \<in> set g. \<forall>(k, d) \<in> set f. d = dimOf k" by simp_all
  from collect_factor_agrees[OF Cons.prems(1) f]
  have ag: "agrees dimOf (collect_factor f s)"
    and ks: "key ` set (collect_factor f s) = key ` set s \<union> fst ` set f" by simp_all
  from Cons.IH[OF ag g] ks show ?case by auto
qed

lemma set_insert_entry: "set (insert_entry e s) = insert e (set s)"
  by (induction s) auto

lemma set_sort_entries: "set (sort_entries s) = set s"
  by (induction s) (simp_all add: set_insert_entry)

lemma sorted_insert_entry:
  "sorted_wrt (<) (map key s) \<Longrightarrow> key e \<notin> key ` set s \<Longrightarrow>
     sorted_wrt (<) (map key (insert_entry e s))"
proof (induction s)
  case Nil
  then show ?case by simp
next
  case (Cons x s)
  then show ?case
    by (auto simp: slot_less_def set_insert_entry)
qed

lemma sorted_sort_entries:
  "distinct (map key s) \<Longrightarrow> sorted_wrt (<) (map key (sort_entries s))"
proof (induction s)
  case Nil
  then show ?case by simp
next
  case (Cons e s)
  then show ?case
    by (simp add: sorted_insert_entry set_sort_entries)
qed

text \<open>
  Claim C8. For a Gaussian factor graph whose factors give every variable \<open>k\<close> its
  dimension \<open>dimOf k\<close>, the scatter built from it (no ordering given) has its keys in
  strictly ascending order, its keys are exactly the keys the factors mention, and each
  entry carries the dimension of its key.
\<close>

theorem Scatter_sorted_union:
  assumes "\<forall>f \<in> set gfg. \<forall>(k, d) \<in> set f. d = dimOf k"
  shows "sorted_wrt (<) (map key (Scatter gfg)) \<and>
         key ` set (Scatter gfg) = (\<Union>f \<in> set gfg. fst ` set f) \<and>
         (\<forall>e \<in> set (Scatter gfg). dimension e = dimOf (key e))"
proof -
  have "agrees dimOf []" by (simp add: agrees_def)
  from collect_graph_agrees[OF this assms]
  have ag: "agrees dimOf (collect_graph gfg [])"
    and ks: "key ` set (collect_graph gfg []) = (\<Union>f \<in> set gfg. fst ` set f)" by simp_all
  from ag have d: "distinct (map key (collect_graph gfg []))"
    and eq: "\<forall>e \<in> set (collect_graph gfg []). e = \<lparr>key = key e, dimension = dimOf (key e)\<rparr>"
    by (simp_all add: agrees_def)
  have dm: "\<forall>e \<in> set (collect_graph gfg []). dimension e = dimOf (key e)"
  proof
    fix e assume "e \<in> set (collect_graph gfg [])"
    with eq have "e = \<lparr>key = key e, dimension = dimOf (key e)\<rparr>" by blast
    from arg_cong[OF this, of dimension] show "dimension e = dimOf (key e)" by simp
  qed
  from sorted_sort_entries[OF d] ks dm show ?thesis
    by (simp add: Scatter_def set_sort_entries)
qed


text \<open>
  Witness of C8 on the example of the spec: the variables 2, 0 and 5 of dimensions 3, 1
  and 2 give the sequence (0, 1), (2, 3), (5, 2).
\<close>

theorem Scatter_sorted_union_witness:
  "Scatter [[(2, 3), (0, 1)], [(5, 2), (2, 3)]] =
     [\<lparr>key = 0, dimension = 1\<rparr>, \<lparr>key = 2, dimension = 3\<rparr>, \<lparr>key = 5, dimension = 2\<rparr>] \<and>
   sorted_wrt (<) (map key (Scatter [[(2, 3), (0, 1)], [(5, 2), (2, 3)]])) \<and>
   key ` set (Scatter [[(2, 3), (0, 1)], [(5, 2), (2, 3)]]) = {0, 2, 5}"
proof -
  let ?g = "[[(2, 3), (0, 1)], [(5, 2), (2, 3)]] :: GaussianFactorGraph"
  let ?dimOf = "\<lambda>k :: Key. if k = 2 then 3 else if k = 0 then 1 else (2 :: int)"
  have ev: "Scatter ?g =
     [\<lparr>key = 0, dimension = 1\<rparr>, \<lparr>key = 2, dimension = 3\<rparr>, \<lparr>key = 5, dimension = 2\<rparr>]"
    by (simp add: Scatter_def add_def slot_less_def)
  have h: "\<forall>f \<in> set ?g. \<forall>(k, d) \<in> set f. d = ?dimOf k" by simp
  from Scatter_sorted_union[OF h]
  have "sorted_wrt (<) (map key (Scatter ?g))"
    and "key ` set (Scatter ?g) = (\<Union>f \<in> set ?g. fst ` set f)" by blast+
  then have "sorted_wrt (<) (map key (Scatter ?g)) \<and> key ` set (Scatter ?g) = {0, 2, 5}"
    by auto
  with ev show ?thesis by blast
qed

section \<open>Properties of the constrained noise model\<close>

text \<open>
  Claim C2. For a constrained model and a residual \<open>v\<close> of the model's dimension,
  \<open>whiten\<close> returns a vector of the same dimension whose component \<open>i\<close> is 0 when
  \<open>sigma_i = 0\<close> and \<open>v_i = 0\<close>, is \<open>v_i\<close> when \<open>sigma_i = 0\<close> and \<open>v_i \<noteq> 0\<close>, and is
  \<open>v_i / sigma_i\<close>, the component of the diagonal model, when \<open>sigma_i > 0\<close>; it depends
  on no other component.
\<close>

theorem Constrained_whiten_componentwise:
  assumes "length (sigmas m) = dim m" and "length v = dim m" and "i < dim m"
  shows "\<exists>w. whiten m v = Inr w \<and> length w = dim m \<and>
           (sigmas m ! i = 0 \<and> v ! i = 0 \<longrightarrow> w ! i = 0) \<and>
           (sigmas m ! i = 0 \<and> v ! i \<noteq> 0 \<longrightarrow> w ! i = v ! i) \<and>
           (0 < sigmas m ! i \<longrightarrow>
              w ! i = v ! i / sigmas m ! i \<and> w ! i = Diagonal_whiten (sigmas m) v ! i)"
proof -
  let ?w = "map2 whiten_component (sigmas m) v"
  have w: "whiten m v = Inr ?w" using assms(2) by (simp add: whiten_def)
  have len: "length ?w = dim m" using assms(1,2) by simp
  have nth: "?w ! i = whiten_component (sigmas m ! i) (v ! i)"
    using assms by simp
  have d: "Diagonal_whiten (sigmas m) v ! i = v ! i / sigmas m ! i"
    using assms by (simp add: Diagonal_whiten_def)
  have z1: "sigmas m ! i = 0 \<and> v ! i = 0 \<longrightarrow> ?w ! i = 0"
    unfolding nth by (simp add: whiten_component_def)
  have z2: "sigmas m ! i = 0 \<and> v ! i \<noteq> 0 \<longrightarrow> ?w ! i = v ! i"
    unfolding nth by (simp add: whiten_component_def)
  have z3: "0 < sigmas m ! i \<longrightarrow>
              ?w ! i = v ! i / sigmas m ! i \<and> ?w ! i = Diagonal_whiten (sigmas m) v ! i"
    unfolding nth d by (simp add: whiten_component_def)
  from w len z1 z2 z3 show ?thesis by blast
qed

text \<open>
  Witness of C2: sigmas \<open>[0, 2, 0]\<close> and residual \<open>[0, 3, 5]\<close> give \<open>[0, 3/2, 5]\<close>.
\<close>

theorem Constrained_whiten_componentwise_witness:
  "length (sigmas \<lparr>dim = 3, sigmas = [0, 2, 0], mu = [1000, 1000, 1000]\<rparr>) = 3 \<and>
   whiten \<lparr>dim = 3, sigmas = [0, 2, 0], mu = [1000, 1000, 1000]\<rparr> [0, 3, 5] = Inr [0, 3 / 2, 5] \<and>
   (\<exists>w. whiten \<lparr>dim = 3, sigmas = [0, 2, 0], mu = [1000, 1000, 1000]\<rparr> [0, 3, 5] = Inr w \<and>
        w ! 1 = Diagonal_whiten [0, 2, 0] [0, 3, 5] ! 1)"
proof -
  let ?m = "\<lparr>dim = 3, sigmas = [0, 2, 0], mu = [1000, 1000, 1000]\<rparr>"
  have h: "length (sigmas ?m) = dim ?m" "length [0, 3, 5 :: real] = dim ?m" "1 < dim ?m"
    "0 < sigmas ?m ! 1"
    by simp_all
  have ev: "whiten ?m [0, 3, 5] = Inr [0, 3 / 2, 5]"
    by (simp add: whiten_def whiten_component_def)
  from Constrained_whiten_componentwise[OF h(1,2,3)] h(4)
  have "\<exists>w. whiten ?m [0, 3, 5] = Inr w \<and> w ! 1 = Diagonal_whiten (sigmas ?m) [0, 3, 5] ! 1"
    by blast
  then have "\<exists>w. whiten ?m [0, 3, 5] = Inr w \<and> w ! 1 = Diagonal_whiten [0, 2, 0] [0, 3, 5] ! 1"
    by simp
  with ev h(1) show ?thesis by simp
qed

end
